theory Spec2Isabelle
  imports Complex_Main "HOL-Library.Multiset"
begin

section \<open>Rule algebra\<close>

text \<open>
  The split conditions of \<^verbatim>\<open>pythagorastreeviewer.py\<close>: \<^verbatim>\<open>DiscreteRule\<close>,
  \<^verbatim>\<open>ContinuousRule\<close> and \<^verbatim>\<open>IntervalRule\<close>, each with its \<^verbatim>\<open>merge_with\<close>.
  The value of a continuous rule is a Python number: an \<^verbatim>\<open>int\<close> according to the
  class's docstring and in the docstring examples, a float where \<^verbatim>\<open>rules\<close> builds
  the rule from \<^verbatim>\<open>self._tree.threshold\<close>. Python compares the two kinds by their
  numeric value, which \<open>num\<close> gives; floats are modelled as reals. A discrete value is an
  opaque object, modelled as a string.

  An \<^verbatim>\<open>IntervalRule\<close> holds two \<^verbatim>\<open>ContinuousRule\<close> objects: its constructor
  raises \<^verbatim>\<open>AttributeError\<close> for anything else, which \<open>IntervalRule_init\<close> models.
  The argument of \<^verbatim>\<open>merge_with\<close> is any Python object, and a method that falls off
  its end returns \<^verbatim>\<open>None\<close>: both are values of \<open>pyobj\<close>.
\<close>

datatype number = PyInt int | PyFloat real

fun num :: "number \<Rightarrow> real" where
  "num (PyInt i) = of_int i"
| "num (PyFloat x) = x"

fun is_int :: "number \<Rightarrow> bool" where
  "is_int (PyInt i) = True"
| "is_int (PyFloat x) = False"

datatype discrete_rule =
  DiscreteRule (d_attr_name: string) (d_sign: bool) (d_value: string)

datatype continuous_rule =
  ContinuousRule (c_attr_name: string) (c_sign: bool) (c_value: number) (c_inclusive: bool)

datatype interval_rule =
  IntervalRule (i_attr_name: string) (left_rule: continuous_rule) (right_rule: continuous_rule)

datatype rule = Discrete discrete_rule | Continuous continuous_rule | Interval interval_rule

datatype pyobj = Rule rule | PyNone | Other string

datatype error = TypeError | AttributeError | ValueError

text \<open>A line written to \<^verbatim>\<open>sys.stderr\<close>: the warning names both rules.\<close>

datatype diagnostic = MergedDiscreteWarning discrete_rule pyobj

text \<open>
  The warning is built with \<^verbatim>\<open>'...%s...%s' % (self, rule)\<close>, which calls
  \<^verbatim>\<open>str\<close> on both objects. \<open>str_raises\<close> says what that call raises, if
  anything; the text itself is not modelled. \<^verbatim>\<open>DiscreteRule.__str__\<close> formats
  with \<^verbatim>\<open>'{}'\<close> and \<^verbatim>\<open>ContinuousRule.__str__\<close> with \<^verbatim>\<open>'%.3f'\<close>, which
  takes an int as well as a float. \<^verbatim>\<open>IntervalRule.__str__\<close> formats both values
  with \<^verbatim>\<open>'{:.3}'\<close>: a precision is not allowed in the format of an \<^verbatim>\<open>int\<close>,
  for which \<^verbatim>\<open>str.format\<close> raises \<^verbatim>\<open>ValueError\<close>. \<^verbatim>\<open>None\<close> and the
  objects of \<open>Other\<close> print without error.
\<close>

fun str_raises :: "pyobj \<Rightarrow> error option" where
  "str_raises (Rule (Interval r)) =
     (if is_int (c_value (left_rule r)) \<or> is_int (c_value (right_rule r))
      then Some ValueError else None)"
| "str_raises _ = None"

text \<open>
  \<^verbatim>\<open>DiscreteRule.merge_with\<close>: prints the warning and returns its argument. The
  second component is \<^verbatim>\<open>stderr\<close> after the call; an exception raised while the
  message is formatted leaves the method before anything is printed.
\<close>

definition DiscreteRule_merge_with ::
  "discrete_rule \<Rightarrow> pyobj \<Rightarrow> diagnostic list \<Rightarrow> (error + pyobj) \<times> diagnostic list" where
  "DiscreteRule_merge_with self rule stderr =
     (case str_raises (Rule (Discrete self)) of
        Some e \<Rightarrow> (Inl e, stderr)
      | None \<Rightarrow>
          (case str_raises rule of
             Some e \<Rightarrow> (Inl e, stderr)
           | None \<Rightarrow> (Inr rule, stderr @ [MergedDiscreteWarning self rule])))"

text \<open>\<^verbatim>\<open>IntervalRule.__init__\<close> with its two \<^verbatim>\<open>isinstance\<close> checks.\<close>

fun IntervalRule_init :: "string \<Rightarrow> pyobj \<Rightarrow> pyobj \<Rightarrow> error + pyobj" where
  "IntervalRule_init attr (Rule (Continuous l)) (Rule (Continuous r)) =
     Inr (Rule (Interval (IntervalRule attr l r)))"
| "IntervalRule_init attr _ _ = Inl AttributeError"

text \<open>
  \<^verbatim>\<open>ContinuousRule.merge_with\<close>. For an argument that is no \<^verbatim>\<open>ContinuousRule\<close> the
  source executes \<^verbatim>\<open>raise NotImplemented('...')\<close>; \<^verbatim>\<open>NotImplemented\<close> is a constant
  and not callable, so the call of it raises \<^verbatim>\<open>TypeError\<close> before any exception
  object exists. The merged rule is built without \<^verbatim>\<open>inclusive\<close>, whose default is
  \<^verbatim>\<open>False\<close>. \<^verbatim>\<open>lt_rule != self\<close> compares two objects whose signs differ.
\<close>

fun ContinuousRule_merge_with :: "continuous_rule \<Rightarrow> pyobj \<Rightarrow> error + pyobj" where
  "ContinuousRule_merge_with self (Rule (Continuous rule)) =
     (if c_sign self = c_sign rule then
        (if c_sign self then
           (let larger = (if num (c_value self) > num (c_value rule)
                          then c_value self else c_value rule)
            in Inr (Rule (Continuous (ContinuousRule (c_attr_name self) (c_sign self) larger False))))
         else
           (let smaller = (if num (c_value self) < num (c_value rule)
                           then c_value self else c_value rule)
            in Inr (Rule (Continuous (ContinuousRule (c_attr_name self) (c_sign self) smaller False)))))
      else
        (let lt_rule = (if \<not> c_sign self then self else rule);
             gt_rule = (if lt_rule \<noteq> self then self else rule)
         in IntervalRule_init (c_attr_name self) (Rule (Continuous gt_rule)) (Rule (Continuous lt_rule))))"
| "ContinuousRule_merge_with self _ = Inl TypeError"

text \<open>
  \<^verbatim>\<open>IntervalRule.merge_with\<close>: an \<^verbatim>\<open>if\<close> / \<^verbatim>\<open>elif\<close> with no \<^verbatim>\<open>else\<close>, so every
  other argument reaches the end of the method, which returns \<^verbatim>\<open>None\<close>. Arguments
  of the constructor are evaluated left to right, and an exception of an inner
  \<^verbatim>\<open>merge_with\<close> leaves the method.
\<close>

fun IntervalRule_merge_with :: "interval_rule \<Rightarrow> pyobj \<Rightarrow> error + pyobj" where
  "IntervalRule_merge_with self (Rule (Continuous rule)) =
     (if c_sign rule then
        (case ContinuousRule_merge_with (left_rule self) (Rule (Continuous rule)) of
           Inl e \<Rightarrow> Inl e
         | Inr l \<Rightarrow> IntervalRule_init (i_attr_name self) l (Rule (Continuous (right_rule self))))
      else
        (case ContinuousRule_merge_with (right_rule self) (Rule (Continuous rule)) of
           Inl e \<Rightarrow> Inl e
         | Inr r \<Rightarrow> IntervalRule_init (i_attr_name self) (Rule (Continuous (left_rule self))) r))"
| "IntervalRule_merge_with self (Rule (Interval rule)) =
     (case ContinuousRule_merge_with (left_rule self) (Rule (Continuous (left_rule rule))) of
        Inl e \<Rightarrow> Inl e
      | Inr l \<Rightarrow>
          (case ContinuousRule_merge_with (right_rule self) (Rule (Continuous (right_rule rule))) of
             Inl e \<Rightarrow> Inl e
           | Inr r \<Rightarrow> IntervalRule_init (i_attr_name self) l r))"
| "IntervalRule_merge_with self _ = Inr PyNone"

section \<open>Squares and tree nodes\<close>

text \<open>
  \<^verbatim>\<open>Point\<close> and \<^verbatim>\<open>Square\<close> are named tuples, compared and hashed by value. Their
  components are Python floats, modelled as reals. A \<^verbatim>\<open>TreeNode\<close> carries its label,
  its square and its children; the \<^verbatim>\<open>parent\<close> back-reference is read by no function
  modelled here, and the \<^verbatim>\<open>graphics_item\<close> slot is represented by the viewer's
  \<^verbatim>\<open>_square_objects\<close> dictionary.
\<close>

datatype Point = Point (px: real) (py: real)

datatype Square = Square (center: Point) (length_sq: real) (angle: real)

datatype TreeNode = TreeNode (label: int) (square: Square) (children: "TreeNode list")

fun node_count :: "TreeNode \<Rightarrow> nat" where
  "node_count (TreeNode l sq cs) = Suc (sum_list (map node_count cs))"

section \<open>The geometry engine\<close>

text \<open>
  A tree adapter is represented by the finite tree it exposes: every node with its label,
  the weight \<^verbatim>\<open>tree.weight(node)\<close> and its children in the order of
  \<^verbatim>\<open>tree.children(node)\<close>. \<^verbatim>\<open>tree.root\<close> is the label of the top node.
\<close>

datatype adapter_tree = Node (node_id: int) (weight: real) (subtrees: "adapter_tree list")

text \<open>
  \<^verbatim>\<open>_slopes\<close> is a \<^verbatim>\<open>defaultdict(list)\<close> keyed by squares: a total function with
  the empty list where nothing was stored. \<open>no_slopes\<close> is the dictionary of a new
  \<^verbatim>\<open>PythagorasTree\<close> and of \<^verbatim>\<open>_slopes.clear()\<close>.
\<close>

type_synonym slopes = "Square \<Rightarrow> real list"

definition no_slopes :: slopes where
  "no_slopes = (\<lambda>sq. [])"

definition get_point_on_square_edge :: "Point \<Rightarrow> real \<Rightarrow> real \<Rightarrow> Point" where
  "get_point_on_square_edge c len ang =
     Point (px c + len / 2 * cos ang) (py c + len / 2 * sin ang)"

definition rotate_point :: "Point \<Rightarrow> Point \<Rightarrow> real \<Rightarrow> Point" where
  "rotate_point point around alpha =
     (let temp = Point (px point - px around) (py point - py around);
          temp' = Point (px temp * cos alpha - py temp * sin alpha)
                        (px temp * sin alpha + py temp * cos alpha)
      in Point (px temp' + px around) (py temp' + py around))"

definition compute_center :: "Square \<Rightarrow> real \<Rightarrow> real \<Rightarrow> real \<Rightarrow> Point" where
  "compute_center initial_square len alpha base_angle =
     (let parent_center = center initial_square;
          parent_length = length_sq initial_square;
          parent_angle = angle initial_square;
          t0 = get_point_on_square_edge parent_center parent_length parent_angle;
          square_diagonal_length = sqrt (2 * parent_length ^ 2);
          edge0 = get_point_on_square_edge parent_center square_diagonal_length
                    (parent_angle - pi / 4);
          edge = (if base_angle \<noteq> 0 then rotate_point edge0 t0 base_angle else edge0);
          t1 = rotate_point edge t0 alpha;
          t2 = Point ((px t1 + px edge) / 2) ((py t1 + py edge) / 2);
          slope = parent_angle - pi / 2 + alpha / 2
      in get_point_on_square_edge t2 len (slope + base_angle))"

text \<open>
  \<^verbatim>\<open>pythagoras_tree\<close>, the generator over \<^verbatim>\<open>tree.children(node)\<close> and
  \<^verbatim>\<open>_compute_child\<close>, with \<^verbatim>\<open>self._slopes\<close> passed through. The first argument
  is \<^verbatim>\<open>tree.root\<close>.
\<close>

fun pythagoras_tree :: "int \<Rightarrow> adapter_tree \<Rightarrow> Square \<Rightarrow> slopes \<Rightarrow> TreeNode \<times> slopes"
  and compute_children :: "int \<Rightarrow> Square \<Rightarrow> adapter_tree list \<Rightarrow> slopes \<Rightarrow> TreeNode list \<times> slopes"
  and compute_child :: "int \<Rightarrow> Square \<Rightarrow> adapter_tree \<Rightarrow> slopes \<Rightarrow> TreeNode \<times> slopes"
where
  "pythagoras_tree tree_root (Node n w cs) sq slopes =
     (let slopes0 = (if n = tree_root then no_slopes else slopes);
          (kids, slopes1) = compute_children tree_root sq cs slopes0
      in (TreeNode n sq kids, slopes1))"
| "compute_children tree_root parent_square [] slopes = ([], slopes)"
| "compute_children tree_root parent_square (c # cs) slopes =
     (let (child, slopes1) = compute_child tree_root parent_square c slopes;
          (rest, slopes2) = compute_children tree_root parent_square cs slopes1
      in (child # rest, slopes2))"
| "compute_child tree_root parent_square c slopes =
     (let alpha = weight c * pi;
          len = length_sq parent_square * sin (alpha / 2);
          prev_angles = sum_list (slopes parent_square);
          ctr = compute_center parent_square len alpha prev_angles;
          ang = angle parent_square - pi / 2 + prev_angles + alpha / 2;
          sq = Square ctr len ang;
          slopes1 = slopes(parent_square := slopes parent_square @ [alpha])
      in pythagoras_tree tree_root c sq slopes1)"

text \<open>\<^verbatim>\<open>_calculate_tree\<close>: a new engine, the adapter's root, the fixed first square.\<close>

definition initial_square :: Square where
  "initial_square = Square (Point 0 0) 200 (- pi / 2)"




section \<open>The viewer and its incremental drawing\<close>

text \<open>
  A graphics item is what \<^verbatim>\<open>_square_objects\<close> holds for a label: the node it was
  built for, the \<^verbatim>\<open>zvalue\<close> passed to its constructor and whether it is shown. The
  calls the viewer makes on the rendering host are recorded in \<open>events\<close>.
\<close>

datatype graphics_item =
  SquareGraphicsItem (tree_node: TreeNode) (zvalue: int) (isVisible: bool)

datatype event = Create int | Show int | Hide int

record viewer =
  tree :: "TreeNode option"
  depth_limit :: int
  square_objects :: "int \<rightharpoonup> graphics_item"
  drawn_nodes :: "(int \<times> TreeNode) list"
  frontier :: "(int \<times> TreeNode) list"
  events :: "event list"

text \<open>
  \<^verbatim>\<open>__init__\<close> without an adapter. The two deques are lists: the left end is the
  head, \<^verbatim>\<open>appendleft\<close> is \<open>#\<close>, \<^verbatim>\<open>append\<close> and \<^verbatim>\<open>extend\<close> add at the end,
  \<^verbatim>\<open>pop\<close> takes \<open>last\<close>.
\<close>

definition init_viewer :: "int \<Rightarrow> viewer" where
  "init_viewer limit =
     \<lparr>tree = None, depth_limit = limit, square_objects = Map.empty,
      drawn_nodes = [], frontier = [], events = []\<rparr>"

text \<open>\<^verbatim>\<open>_depth_was_decreased\<close>: looks at the right end of \<^verbatim>\<open>_drawn_nodes\<close>.\<close>

definition depth_was_decreased :: "viewer \<Rightarrow> bool" where
  "depth_was_decreased s =
     (if drawn_nodes s = [] then False
      else (case last (drawn_nodes s) of (depth, node) \<Rightarrow> depth > depth_limit s))"

text \<open>\<^verbatim>\<open>self._square_objects[node.label].hide()\<close>, under its membership test.\<close>

definition hide_item :: "TreeNode \<Rightarrow> viewer \<Rightarrow> viewer" where
  "hide_item node s =
     (case square_objects s (label node) of
        None \<Rightarrow> s
      | Some item \<Rightarrow>
          s\<lparr>square_objects := (square_objects s)
               (label node \<mapsto> SquareGraphicsItem (tree_node item) (zvalue item) False),
            events := events s @ [Hide (label node)]\<rparr>)"

text \<open>
  The end of the second loop's body: \<^verbatim>\<open>show()\<close> for a label that has an item, a new
  item (shown, as every new Qt item is) for a label that has none. The constructor of the
  item reads the item of the node's parent; a node enters the frontier only when its parent
  is drawn, so with labels that are unique in the tree that item exists.
\<close>

definition materialize :: "int \<Rightarrow> TreeNode \<Rightarrow> viewer \<Rightarrow> viewer" where
  "materialize depth node s =
     (case square_objects s (label node) of
        Some item \<Rightarrow>
          s\<lparr>square_objects := (square_objects s)
               (label node \<mapsto> SquareGraphicsItem (tree_node item) (zvalue item) True),
            events := events s @ [Show (label node)]\<rparr>
      | None \<Rightarrow>
          s\<lparr>square_objects := (square_objects s)
               (label node \<mapsto> SquareGraphicsItem node depth True),
            events := events s @ [Create (label node)]\<rparr>)"

text \<open>
  The first loop of \<^verbatim>\<open>_draw_tree\<close>: pop from the right of \<^verbatim>\<open>_drawn_nodes\<close> until
  an entry within the limit is found, which is put back.
\<close>

function shrink_drawn :: "viewer \<Rightarrow> viewer" where
  "shrink_drawn s =
     (if drawn_nodes s = [] then s
      else
        (let depth = fst (last (drawn_nodes s));
             node = snd (last (drawn_nodes s));
             s1 = s\<lparr>drawn_nodes := butlast (drawn_nodes s)\<rparr>
         in if depth \<le> depth_limit s1
            then s1\<lparr>drawn_nodes := drawn_nodes s1 @ [(depth, node)]\<rparr>
            else
              (let s2 = (if depth = depth_limit s1 + 1
                         then s1\<lparr>frontier := (depth, node) # frontier s1\<rparr> else s1)
               in shrink_drawn (hide_item node s2))))"
  by pat_completeness auto
termination
  by (relation "measure (\<lambda>s. length (drawn_nodes s))")
     (auto simp: hide_item_def split: option.splits)

text \<open>
  The second loop: pop from the left of \<^verbatim>\<open>_frontier\<close>; an entry beyond the limit is
  put back and ends the loop; any other entry is drawn and its children join the right
  end of the frontier. The loop ends because every entry is replaced by entries for
  strictly smaller subtrees.
\<close>

function grow_frontier :: "viewer \<Rightarrow> viewer" where
  "grow_frontier s =
     (case frontier s of
        [] \<Rightarrow> s
      | (depth, node) # rest \<Rightarrow>
          if depth > depth_limit s then s
          else grow_frontier
                 (materialize depth node
                    (s\<lparr>frontier := rest @ map (\<lambda>c. (depth + 1, c)) (children node),
                       drawn_nodes := drawn_nodes s @ [(depth, node)]\<rparr>)))"
  by pat_completeness auto
termination
proof (relation "measure (\<lambda>s. sum_list (map (\<lambda>e. node_count (snd e)) (frontier s)))")
  show "wf (measure (\<lambda>s. sum_list (map (\<lambda>e. node_count (snd e)) (frontier s))))"
    by simp
next
  fix s :: viewer and x21 x22 x1 x2
  assume fr: "frontier s = x21 # x22" and x: "(x1, x2) = x21"
  have kids: "sum_list (map (\<lambda>e. node_count (snd e)) (map (\<lambda>c. (x1 + 1, c)) (children x2)))
                 < node_count x2"
    by (cases x2) (simp add: comp_def)
  have fr': "frontier (materialize x1 x2
                (s\<lparr>frontier := x22 @ map (\<lambda>c. (x1 + 1, c)) (children x2),
                   drawn_nodes := drawn_nodes s @ [(x1, x2)]\<rparr>))
             = x22 @ map (\<lambda>c. (x1 + 1, c)) (children x2)"
    by (simp add: materialize_def split: option.splits)
  from x have "snd x21 = x2" by auto
  with fr fr' kids
  show "(materialize x1 x2
           (s\<lparr>frontier := x22 @ map (\<lambda>c. (x1 + 1, c)) (children x2),
              drawn_nodes := drawn_nodes s @ [(x1, x2)]\<rparr>), s)
          \<in> measure (\<lambda>s. sum_list (map (\<lambda>e. node_count (snd e)) (frontier s)))"
    by simp
qed

text \<open>
  \<^verbatim>\<open>_draw_tree\<close>. Both callers pass \<^verbatim>\<open>self._tree\<close> as \<^verbatim>\<open>root\<close>, so the model
  reads the root from the state.
\<close>

definition draw_tree :: "viewer \<Rightarrow> viewer" where
  "draw_tree s =
     (case tree s of
        None \<Rightarrow> s
      | Some root_node \<Rightarrow>
          (let s1 = (if drawn_nodes s = [] then s\<lparr>frontier := (0, root_node) # frontier s\<rparr> else s);
               was_decreased = depth_was_decreased s1;
               s2 = (if was_decreased then s1\<lparr>frontier := []\<rparr> else s1)
           in grow_frontier (shrink_drawn s2)))"

definition set_depth_limit :: "int \<Rightarrow> viewer \<Rightarrow> viewer" where
  "set_depth_limit depth s = draw_tree (s\<lparr>depth_limit := depth\<rparr>)"

text \<open>
  \<^verbatim>\<open>clear\<close> (with \<^verbatim>\<open>_clear_scene\<close>) and \<^verbatim>\<open>set_tree\<close> for an adapter that is not
  \<^verbatim>\<open>None\<close>: \<open>t\<close> is the tree \<^verbatim>\<open>_calculate_tree\<close> returns for the adapter and
  \<open>max_depth\<close> the adapter's \<^verbatim>\<open>max_depth\<close>. \<open>tree_set\<close> is the state in which
  \<^verbatim>\<open>set_tree\<close> makes its first call of \<^verbatim>\<open>_draw_tree\<close>. Removing the drawn
  items from the scene is left to the rendering host and adds no event.
\<close>

definition clear :: "viewer \<Rightarrow> viewer" where
  "clear s = s\<lparr>tree := None, frontier := [], drawn_nodes := [], square_objects := Map.empty\<rparr>"

definition tree_set :: "TreeNode \<Rightarrow> viewer \<Rightarrow> viewer" where
  "tree_set t s = (clear s)\<lparr>tree := Some t\<rparr>"

definition set_tree :: "TreeNode \<Rightarrow> int \<Rightarrow> viewer \<Rightarrow> viewer" where
  "set_tree t max_depth s = draw_tree (set_depth_limit max_depth (tree_set t s))"

text \<open>A sequence of \<^verbatim>\<open>set_depth_limit\<close> calls, first limit first.\<close>

definition set_depth_limits :: "int list \<Rightarrow> viewer \<Rightarrow> viewer" where
  "set_depth_limits limits s = foldl (\<lambda>s' limit. set_depth_limit limit s') s limits"

text \<open>
  What the claims speak of: the nodes of a tree at a depth and up to a depth limit (the
  root has depth 0), all nodes of a tree, whether a label's item is shown, and the
  events a call added.
\<close>

fun nodes_at_depth :: "TreeNode \<Rightarrow> nat \<Rightarrow> TreeNode list" where
  "nodes_at_depth t 0 = [t]"
| "nodes_at_depth t (Suc d) = concat (map (\<lambda>c. nodes_at_depth c d) (children t))"

definition entries_upto :: "TreeNode \<Rightarrow> int \<Rightarrow> (int \<times> TreeNode) list" where
  "entries_upto t limit =
     concat (map (\<lambda>d. map (\<lambda>n. (int d, n)) (nodes_at_depth t d)) [0..<nat (limit + 1)])"

definition nodes_upto :: "TreeNode \<Rightarrow> int \<Rightarrow> TreeNode list" where
  "nodes_upto t limit = map snd (entries_upto t limit)"

fun all_nodes :: "TreeNode \<Rightarrow> TreeNode list" where
  "all_nodes (TreeNode l sq cs) = TreeNode l sq cs # concat (map all_nodes cs)"

definition shown :: "viewer \<Rightarrow> int \<Rightarrow> bool" where
  "shown s l = (case square_objects s l of None \<Rightarrow> False | Some item \<Rightarrow> isVisible item)"


section \<open>Example inputs\<close>






definition balanced3 :: TreeNode where
  "balanced3 = TreeNode 0 initial_square
     [TreeNode 1 initial_square [TreeNode 3 initial_square [], TreeNode 4 initial_square []],
      TreeNode 2 initial_square [TreeNode 5 initial_square [], TreeNode 6 initial_square []]]"

section \<open>Notions used in the proofs\<close>


text \<open>
  Levels of a forest: \<open>level F n\<close> holds the nodes \<open>n\<close> steps below the nodes of
  \<open>F\<close>, in breadth-first order; \<open>layers d F n\<close> is the deque content made of the
  levels 0 to \<open>n - 1\<close> with the depths \<open>d\<close>, \<open>d + 1\<close>, and so on.
\<close>

definition kids :: "TreeNode list \<Rightarrow> TreeNode list" where
  "kids F = concat (map children F)"

fun level :: "TreeNode list \<Rightarrow> nat \<Rightarrow> TreeNode list" where
  "level F 0 = F"
| "level F (Suc n) = level (kids F) n"

definition tag :: "int \<Rightarrow> TreeNode list \<Rightarrow> (int \<times> TreeNode) list" where
  "tag d F = map (\<lambda>n. (d, n)) F"

definition layers :: "int \<Rightarrow> TreeNode list \<Rightarrow> nat \<Rightarrow> (int \<times> TreeNode) list" where
  "layers d F n = concat (map (\<lambda>i. tag (d + int i) (level F i)) [0..<n])"

definition nodes_f :: "TreeNode list \<Rightarrow> TreeNode list" where
  "nodes_f F = concat (map all_nodes F)"

text \<open>
  The shape of the viewer's state after a call of \<^verbatim>\<open>_draw_tree\<close> that drew
  \<open>m\<close> levels. The frontier was seeded \<open>k\<close> times with the root since the drawn deque
  was last empty (more than once only after a negative limit), so every level occurs
  \<open>k\<close> times. Shown items belong to drawn nodes.
\<close>

definition drawn_inv :: "TreeNode \<Rightarrow> nat \<Rightarrow> nat \<Rightarrow> viewer \<Rightarrow> bool" where
  "drawn_inv t m k s \<longleftrightarrow>
     tree s = Some t \<and> (0 < m \<longrightarrow> 0 < k)
     \<and> drawn_nodes s = layers 0 (replicate k t) m
     \<and> frontier s = tag (int m) (level (replicate k t) m)
     \<and> (\<forall>l. shown s l \<longrightarrow> l \<in> label ` snd ` set (drawn_nodes s))"

text \<open>
  With pairwise distinct labels, the shown items are those of the drawn levels.
\<close>

definition shown_inv :: "TreeNode \<Rightarrow> nat \<Rightarrow> viewer \<Rightarrow> bool" where
  "shown_inv t m s \<longleftrightarrow> (\<forall>l. shown s l \<longleftrightarrow> l \<in> label ` snd ` set (layers 0 [t] m))"


section \<open>Properties of the rule algebra\<close>

text \<open>
  C3: two continuous rules of the same direction merge into one continuous rule on the
  receiver's attribute with the tighter bound (the larger value for two lower bounds, the
  smaller for two upper bounds); two rules of different directions merge into an
  interval rule whose left rule is the one with \<^verbatim>\<open>gt = True\<close> and whose right rule is
  the one with \<^verbatim>\<open>gt = False\<close>.
\<close>

theorem continuous_merge_laws:
  "(c_sign a = c_sign b \<longrightarrow>
      (\<exists>r. ContinuousRule_merge_with a (Rule (Continuous b)) = Inr (Rule (Continuous r))
         \<and> c_attr_name r = c_attr_name a \<and> c_sign r = c_sign a
         \<and> c_value r \<in> {c_value a, c_value b}
         \<and> num (c_value r) = (if c_sign a then max (num (c_value a)) (num (c_value b))
                              else min (num (c_value a)) (num (c_value b)))))
   \<and> (c_sign a \<noteq> c_sign b \<longrightarrow>
      (\<exists>l r. ContinuousRule_merge_with a (Rule (Continuous b))
               = Inr (Rule (Interval (IntervalRule (c_attr_name a) l r)))
         \<and> c_sign l \<and> \<not> c_sign r \<and> {l, r} = {a, b}))"
  by (cases a; cases b) (auto simp: Let_def max_def min_def)

text \<open>The two examples of the specification: 5 and 8, and \<open>x > 5\<close> with \<open>x \<le> 10\<close>.\<close>

theorem continuous_merge_laws_witness:
  "ContinuousRule_merge_with (ContinuousRule ''x'' True (PyInt 5) False)
       (Rule (Continuous (ContinuousRule ''x'' True (PyInt 8) False)))
     = Inr (Rule (Continuous (ContinuousRule ''x'' True (PyInt 8) False)))
   \<and> ContinuousRule_merge_with (ContinuousRule ''x'' True (PyInt 5) False)
       (Rule (Continuous (ContinuousRule ''x'' False (PyInt 10) True)))
     = Inr (Rule (Interval (IntervalRule ''x'' (ContinuousRule ''x'' True (PyInt 5) False)
                                              (ContinuousRule ''x'' False (PyInt 10) True))))"
  using continuous_merge_laws [of "ContinuousRule ''x'' True (PyInt 5) False"
                                  "ContinuousRule ''x'' True (PyInt 8) False"]
        continuous_merge_laws [of "ContinuousRule ''x'' True (PyInt 5) False"
                                  "ContinuousRule ''x'' False (PyInt 10) True"]
  by (simp add: Let_def)

text \<open>
  C4: an interval rule merged with a discrete rule does not raise: the call returns
  \<^verbatim>\<open>None\<close>. A continuous rule merged with the same discrete rule raises, but what it
  raises is the \<^verbatim>\<open>TypeError\<close> of calling \<^verbatim>\<open>NotImplemented\<close>.
\<close>

theorem unsupported_merge_at_discrete:
  "IntervalRule_merge_with
       (IntervalRule ''x'' (ContinuousRule ''x'' True (PyInt 1) False)
                           (ContinuousRule ''x'' False (PyInt 3) False))
       (Rule (Discrete (DiscreteRule ''x'' True ''a'')))
     = Inr PyNone
   \<and> ContinuousRule_merge_with (ContinuousRule ''x'' True (PyInt 1) False)
       (Rule (Discrete (DiscreteRule ''x'' True ''a'')))
     = Inl TypeError"
  by simp

text \<open>
  C9: \<^verbatim>\<open>DiscreteRule.merge_with\<close> raises \<^verbatim>\<open>ValueError\<close> when its argument is the
  interval rule of the \<^verbatim>\<open>IntervalRule\<close> docstring, whose bounds are the ints 1 and 3:
  formatting the warning calls \<^verbatim>\<open>IntervalRule.__str__\<close>. Nothing is printed and
  nothing is returned. For an argument that prints, the call returns the argument and
  adds one warning to \<^verbatim>\<open>stderr\<close>.
\<close>

theorem discrete_merge_at_int_interval:
  "DiscreteRule_merge_with (DiscreteRule ''x'' True ''a'')
       (Rule (Interval (IntervalRule ''Rule'' (ContinuousRule ''Rule'' True (PyInt 1) True)
                                             (ContinuousRule ''Rule'' False (PyInt 3) False))))
       stderr
     = (Inl ValueError, stderr)
   \<and> DiscreteRule_merge_with (DiscreteRule ''x'' True ''a'')
       (Rule (Discrete (DiscreteRule ''x'' False ''b''))) stderr
     = (Inr (Rule (Discrete (DiscreteRule ''x'' False ''b''))),
        stderr @ [MergedDiscreteWarning (DiscreteRule ''x'' True ''a'')
                    (Rule (Discrete (DiscreteRule ''x'' False ''b'')))])"
  by (simp add: DiscreteRule_merge_with_def)

text \<open>
  C10: the rule that results from merging two continuous rules of the same direction is
  never inclusive, whatever the \<^verbatim>\<open>inclusive\<close> flags of the two rules were.
\<close>

theorem same_direction_merge_not_inclusive:
  "c_sign a = c_sign b \<Longrightarrow>
     \<exists>r. ContinuousRule_merge_with a (Rule (Continuous b)) = Inr (Rule (Continuous r))
        \<and> \<not> c_inclusive r"
  by (simp add: Let_def)

text \<open>Two inclusive upper bounds merge into a bound that is not inclusive.\<close>

theorem same_direction_merge_not_inclusive_witness:
  "c_sign (ContinuousRule ''x'' False (PyFloat 3) True)
     = c_sign (ContinuousRule ''x'' False (PyFloat 7) True)
   \<and> ContinuousRule_merge_with (ContinuousRule ''x'' False (PyFloat 3) True)
        (Rule (Continuous (ContinuousRule ''x'' False (PyFloat 7) True)))
      = Inr (Rule (Continuous (ContinuousRule ''x'' False (PyFloat 3) False)))"
  using same_direction_merge_not_inclusive
          [of "ContinuousRule ''x'' False (PyFloat 3) True"
              "ContinuousRule ''x'' False (PyFloat 7) True"]
  by (simp add: Let_def)

section \<open>Properties of the geometry engine\<close>

text \<open>
  The three functions of the engine call each other; the lemmas below unfold one call
  at a time, so the defining equations leave the simplifier's rules.
\<close>

lemma pythagoras_tree_root_indep:
  "pythagoras_tree (node_id a) a sq m1 = pythagoras_tree (node_id a) a sq m2"
  by (cases a) simp



lemma pythagoras_tree_unfold:
  "pythagoras_tree rl (Node n w cs) sq m =
     (TreeNode n sq (fst (compute_children rl sq cs (if n = rl then no_slopes else m))),
      snd (compute_children rl sq cs (if n = rl then no_slopes else m)))"
  by (simp add: Let_def case_prod_beta)

declare pythagoras_tree.simps [simp del] compute_children.simps(2) [simp del]
  compute_child.simps [simp del]


lemma square_pythagoras_tree [simp]: "square (fst (pythagoras_tree rl a sq m)) = sq"
  by (cases a) (simp add: pythagoras_tree_unfold)






text \<open>
  C6: laid out from the adapter's root, the result of \<^verbatim>\<open>pythagoras_tree\<close> (the
  tree with every square, and the memo left behind) does not depend on what \<^verbatim>\<open>_slopes\<close>
  held before the call, because the call starts by clearing it. A second call on the same
  engine, which starts from the memo the first call left, returns the same tree.
\<close>

theorem layout_idempotent:
  "pythagoras_tree (node_id a) a sq slopes1 = pythagoras_tree (node_id a) a sq slopes2
   \<and> fst (pythagoras_tree (node_id a) a sq (snd (pythagoras_tree (node_id a) a sq slopes)))
       = fst (pythagoras_tree (node_id a) a sq slopes)"
  using pythagoras_tree_root_indep [of a sq] by metis









section \<open>Properties of the incremental drawing\<close>

subsection \<open>Levels and layers\<close>

declare shrink_drawn.simps [simp del] grow_frontier.simps [simp del]

lemma kids_simps [simp]:
  "kids [] = []" "kids (a # F) = children a @ kids F" "kids (A @ B) = kids A @ kids B"
  by (simp_all add: kids_def)

lemma tag_simps [simp]:
  "tag d [] = []" "tag d (a # F) = (d, a) # tag d F" "tag d (A @ B) = tag d A @ tag d B"
  "map snd (tag d F) = F" "fst ` set (tag d F) \<subseteq> {d}" "snd ` set (tag d F) = set F"
  by (auto simp: tag_def comp_def image_iff)

lemma level_Nil [simp]: "level [] n = []"
  by (induction n) auto

lemma level_append: "level (A @ B) n = level A n @ level B n"
  by (induction n arbitrary: A B) auto

lemma level_add: "level (level F a) b = level F (a + b)"
  by (induction a arbitrary: F) auto

lemma level_Suc_end: "level F (Suc n) = kids (level F n)"
  by (induction n arbitrary: F) auto

lemma level_concat: "level F n = concat (map (\<lambda>c. level [c] n) F)"
proof (induction F)
  case Nil show ?case by simp
next
  case (Cons a F)
  have "level (a # F) n = level [a] n @ level F n"
    using level_append [of "[a]" F n] by simp
  with Cons show ?case by simp
qed

lemma level_singleton: "level [t] n = nodes_at_depth t n"
proof (induction n arbitrary: t)
  case 0 show ?case by simp
next
  case (Suc n)
  have "level [t] (Suc n) = level (children t) n" by simp
  also have "\<dots> = concat (map (\<lambda>c. level [c] n) (children t))" by (rule level_concat)
  also have "\<dots> = concat (map (\<lambda>c. nodes_at_depth c n) (children t))" using Suc by simp
  finally show ?case by simp
qed

lemma set_level_replicate: "0 < k \<Longrightarrow> set (level (replicate k t) n) = set (nodes_at_depth t n)"
  by (subst level_concat) (auto simp: level_singleton)

lemma layers_0 [simp]: "layers d F 0 = []"
  by (simp add: layers_def)

lemma layers_Suc: "layers d F (Suc n) = layers d F n @ tag (d + int n) (level F n)"
  by (simp add: layers_def)

lemma layers_Suc_front: "layers d F (Suc n) = tag d F @ layers (d + 1) (kids F) n"
proof -
  have "[0..<Suc n] = 0 # map Suc [0..<n]"
    by (simp add: upt_conv_Cons map_Suc_upt del: upt_Suc)
  then show ?thesis
    by (simp add: layers_def comp_def add.assoc del: upt_Suc)
qed

lemma layers_add: "layers d F (a + b) = layers d F a @ layers (d + int a) (level F a) b"
proof (induction b)
  case 0 show ?case by simp
next
  case (Suc b)
  then show ?case by (simp add: layers_Suc level_add add.assoc)
qed

lemma layers_depths: "e \<in> set (layers d F n) \<Longrightarrow> d \<le> fst e \<and> fst e < d + int n"
  by (induction n) (auto simp: layers_Suc tag_def)

lemma set_layers_replicate:
  "0 < k \<Longrightarrow> set (layers 0 (replicate k t) n) = set (entries_upto t (int n - 1))"
  by (auto simp: layers_def entries_upto_def tag_def set_level_replicate)

subsection \<open>The two loops\<close>

text \<open>
  One graphics item at a time, then the second loop over one level and over several
  levels, then the first loop over a suffix of the drawn deque that lies beyond the limit.
\<close>

lemma materialize_frame [simp]:
  "tree (materialize d n s) = tree s"
  "depth_limit (materialize d n s) = depth_limit s"
  "drawn_nodes (materialize d n s) = drawn_nodes s"
  "frontier (materialize d n s) = frontier s"
  by (simp_all add: materialize_def split: option.splits)

lemma hide_item_frame [simp]:
  "tree (hide_item n s) = tree s"
  "depth_limit (hide_item n s) = depth_limit s"
  "drawn_nodes (hide_item n s) = drawn_nodes s"
  "frontier (hide_item n s) = frontier s"
  by (simp_all add: hide_item_def split: option.splits)

lemma shown_materialize [simp]: "shown (materialize d n s) l \<longleftrightarrow> l = label n \<or> shown s l"
  by (auto simp: shown_def materialize_def split: option.splits)

lemma shown_hide_item [simp]: "shown (hide_item n s) l \<longleftrightarrow> l \<noteq> label n \<and> shown s l"
  by (auto simp: shown_def hide_item_def split: option.splits)

lemma shown_frame [simp]:
  "shown (s\<lparr>drawn_nodes := dn\<rparr>) l = shown s l"
  "shown (s\<lparr>frontier := fr\<rparr>) l = shown s l"
  "shown (s\<lparr>depth_limit := dl\<rparr>) l = shown s l"
  by (simp_all add: shown_def)

lemma dom_materialize [simp]:
  "dom (square_objects (materialize d n s)) = insert (label n) (dom (square_objects s))"
  by (auto simp: materialize_def split: option.splits)

lemma dom_hide_item [simp]: "dom (square_objects (hide_item n s)) = dom (square_objects s)"
  by (auto simp: hide_item_def split: option.splits)

lemma grow_level:
  assumes "frontier s = tag d A @ tag (d + 1) B" and "d \<le> depth_limit s"
  shows "\<exists>s1. grow_frontier s = grow_frontier s1
            \<and> frontier s1 = tag (d + 1) (B @ kids A)
            \<and> drawn_nodes s1 = drawn_nodes s @ tag d A
            \<and> tree s1 = tree s \<and> depth_limit s1 = depth_limit s
            \<and> (\<forall>l. shown s1 l \<longleftrightarrow> shown s l \<or> l \<in> label ` set A)"
  using assms
proof (induction A arbitrary: s B)
  case Nil
  then show ?case by auto
next
  case (Cons a A)
  let ?s' = "materialize d a
               (s\<lparr>frontier := (tag d A @ tag (d + 1) B) @ map (\<lambda>c. (d + 1, c)) (children a),
                  drawn_nodes := drawn_nodes s @ [(d, a)]\<rparr>)"
  from Cons.prems have unfold: "grow_frontier s = grow_frontier ?s'"
    by (subst grow_frontier.simps) simp
  have fr: "frontier ?s' = tag d A @ tag (d + 1) (B @ children a)"
    by (simp add: tag_def)
  have lim: "d \<le> depth_limit ?s'" using Cons.prems by simp
  from Cons.IH [OF fr lim] obtain s1 where
    s1: "grow_frontier ?s' = grow_frontier s1"
        "frontier s1 = tag (d + 1) ((B @ children a) @ kids A)"
        "drawn_nodes s1 = drawn_nodes ?s' @ tag d A"
        "tree s1 = tree ?s'" "depth_limit s1 = depth_limit ?s'"
        "\<forall>l. shown s1 l \<longleftrightarrow> shown ?s' l \<or> l \<in> label ` set A"
    by blast
  have "\<forall>l. shown s1 l \<longleftrightarrow> shown s l \<or> l \<in> label ` set (a # A)"
    using s1(6) by auto
  with unfold s1 show ?case
    by (intro exI [of _ s1]) simp
qed

lemma grow_layers:
  assumes "frontier s = tag d F" and "n = nat (depth_limit s + 1 - d)"
  shows "drawn_nodes (grow_frontier s) = drawn_nodes s @ layers d F n
       \<and> frontier (grow_frontier s) = tag (d + int n) (level F n)
       \<and> tree (grow_frontier s) = tree s
       \<and> depth_limit (grow_frontier s) = depth_limit s
       \<and> (\<forall>l. shown (grow_frontier s) l \<longleftrightarrow> shown s l \<or> l \<in> label ` snd ` set (layers d F n))"
  using assms
proof (induction n arbitrary: s d F)
  case 0
  then have "depth_limit s < d" by simp
  with 0 have "grow_frontier s = s"
    by (subst grow_frontier.simps) (cases F; simp)
  with 0 show ?case by simp
next
  case (Suc n)
  then have le: "d \<le> depth_limit s" by simp
  from Suc.prems have fr: "frontier s = tag d F @ tag (d + 1) []" by simp
  from grow_level [OF fr le] obtain s1 where
    s1: "grow_frontier s = grow_frontier s1"
        "frontier s1 = tag (d + 1) (kids F)"
        "drawn_nodes s1 = drawn_nodes s @ tag d F"
        "tree s1 = tree s" "depth_limit s1 = depth_limit s"
        "\<forall>l. shown s1 l \<longleftrightarrow> shown s l \<or> l \<in> label ` set F"
    by auto
  have n: "n = nat (depth_limit s1 + 1 - (d + 1))" using Suc.prems s1(5) by simp
  note IH = Suc.IH [OF s1(2) n]
  have set_eq: "snd ` set (layers d F (Suc n)) = set F \<union> snd ` set (layers (d + 1) (kids F) n)"
    by (simp add: layers_Suc_front image_Un)
  show ?case
    unfolding s1(1)
    using IH s1 by (simp add: layers_Suc_front set_eq image_Un add.assoc)
qed

lemma shrink_suffix:
  assumes "drawn_nodes s = X @ Y"
    and "\<forall>e \<in> set Y. depth_limit s < fst e"
    and "X = [] \<or> fst (last X) \<le> depth_limit s"
  shows "drawn_nodes (shrink_drawn s) = X
       \<and> frontier (shrink_drawn s) = filter (\<lambda>e. fst e = depth_limit s + 1) Y @ frontier s
       \<and> tree (shrink_drawn s) = tree s
       \<and> depth_limit (shrink_drawn s) = depth_limit s
       \<and> (\<forall>l. shown (shrink_drawn s) l \<longleftrightarrow> shown s l \<and> l \<notin> label ` snd ` set Y)"
  using assms
proof (induction Y arbitrary: s rule: rev_induct)
  case Nil
  then show ?case
    by (subst (1 2 3 4 5) shrink_drawn.simps) (auto simp: Let_def shown_def)
next
  case (snoc y Y)
  define s3 where "s3 = hide_item (snd y)
     (if fst y = depth_limit s + 1
      then s\<lparr>drawn_nodes := X @ Y, frontier := y # frontier s\<rparr>
      else s\<lparr>drawn_nodes := X @ Y\<rparr>)"
  from snoc.prems have gt: "depth_limit s < fst y" by simp
  from snoc.prems gt have unfold: "shrink_drawn s = shrink_drawn s3"
    unfolding s3_def by (subst shrink_drawn.simps, cases y) (simp add: Let_def butlast_append)
  have d: "drawn_nodes s3 = X @ Y" by (simp add: s3_def)
  have lim: "depth_limit s3 = depth_limit s" by (simp add: s3_def)
  have tr: "tree s3 = tree s" by (simp add: s3_def)
  have fr: "frontier s3 = filter (\<lambda>e. fst e = depth_limit s + 1) [y] @ frontier s"
    by (simp add: s3_def)
  have sh: "shown s3 l \<longleftrightarrow> shown s l \<and> l \<noteq> label (snd y)" for l
    by (auto simp: s3_def)
  from snoc.prems have p2: "\<forall>e \<in> set Y. depth_limit s3 < fst e" by (simp add: lim)
  from snoc.prems have p3: "X = [] \<or> fst (last X) \<le> depth_limit s3" by (simp add: lim)
  from snoc.IH [OF d p2 p3]
  have IH: "drawn_nodes (shrink_drawn s3) = X"
      "frontier (shrink_drawn s3) = filter (\<lambda>e. fst e = depth_limit s3 + 1) Y @ frontier s3"
      "tree (shrink_drawn s3) = tree s3"
      "depth_limit (shrink_drawn s3) = depth_limit s3"
      "\<And>l. shown (shrink_drawn s3) l \<longleftrightarrow> shown s3 l \<and> l \<notin> label ` snd ` set Y"
    by simp_all
  have "\<forall>l. shown (shrink_drawn s) l \<longleftrightarrow> shown s l \<and> l \<notin> label ` snd ` set (Y @ [y])"
    by (auto simp: unfold IH(5) sh)
  then show ?case
    by (simp add: unfold IH(1-4) lim tr fr)
qed

lemma layers_Nil [simp]: "layers d [] n = []"
  by (simp add: layers_def)

lemma filter_tag_eq [simp]: "filter (\<lambda>e. fst e = d) (tag d F) = tag d F"
  by (simp add: tag_def)

lemma filter_layers_first:
  "0 < n \<Longrightarrow> filter (\<lambda>e. fst e = d) (layers d G n) = tag d G"
proof -
  assume "0 < n"
  then obtain n' where n: "n = Suc n'" by (cases n) auto
  have "\<forall>e \<in> set (layers (d + 1) (kids G) n'). fst e \<noteq> d"
    using layers_depths [of _ "d + 1" "kids G" n'] by fastforce
  then have "filter (\<lambda>e. fst e = d) (layers (d + 1) (kids G) n') = []"
    by (simp add: filter_empty_conv)
  then show ?thesis by (simp add: n layers_Suc_front)
qed

lemma filter_layers_below:
  assumes "c < d" shows "filter (\<lambda>e. fst e = c) (layers d G n) = []"
proof -
  have "\<forall>e \<in> set (layers d G n). fst e \<noteq> c"
    using layers_depths [of _ d G n] assms by fastforce
  then show ?thesis by (simp add: filter_empty_conv)
qed

lemma depth_was_decreased_iff:
  "depth_was_decreased s \<longleftrightarrow>
     drawn_nodes s \<noteq> [] \<and> depth_limit s < fst (last (drawn_nodes s))"
  by (simp add: depth_was_decreased_def case_prod_beta)

lemma layers_first_empty:
  assumes "layers d G n = []" and "0 < n" shows "G = []"
proof -
  from assms(2) obtain n' where "n = Suc n'" by (cases n) auto
  with assms(1) show ?thesis by (simp add: layers_Suc_front tag_def)
qed

lemma draw_core:
  assumes dr: "drawn_nodes s1 = layers 0 F m"
    and fr: "frontier s1 = tag (int m) (level F m)"
    and F: "F \<noteq> []"
    and L: "depth_limit s1 = L"
    and m': "m' = nat (L + 1)"
    and s2: "s2 = (if depth_was_decreased s1 then s1\<lparr>frontier := []\<rparr> else s1)"
    and s': "s' = grow_frontier (shrink_drawn s2)"
  shows "drawn_nodes s' = layers 0 F m'
       \<and> frontier s' = (if L < - 1 \<and> m' < m then [] else tag (int m') (level F m'))
       \<and> tree s' = tree s1 \<and> depth_limit s' = L
       \<and> (\<forall>l. shown s' l \<longleftrightarrow>
              (if m \<le> m' then shown s1 l \<or> l \<in> label ` snd ` set (layers (int m) (level F m) (m' - m))
               else shown s1 l \<and> l \<notin> label ` snd ` set (layers (int m') (level F m') (m - m'))))"
proof (cases "m \<le> m'")
  case True
  have nd: "\<not> depth_was_decreased s1"
  proof (cases "drawn_nodes s1 = []")
    case True then show ?thesis by (simp add: depth_was_decreased_iff)
  next
    case False
    then have "last (drawn_nodes s1) \<in> set (layers 0 F m)" using dr by (metis last_in_set)
    from layers_depths [OF this] have "fst (last (drawn_nodes s1)) < int m" by simp
    moreover from False dr have "0 < m" by (cases m) auto
    ultimately have "fst (last (drawn_nodes s1)) \<le> L" using True m' by linarith
    with False show ?thesis by (simp add: depth_was_decreased_iff L)
  qed
  then have s2_eq: "s2 = s1" using s2 by simp
  have X: "layers 0 F m = [] \<or> fst (last (layers 0 F m)) \<le> depth_limit s1"
    using nd dr by (auto simp: depth_was_decreased_iff)
  have "drawn_nodes s1 = layers 0 F m @ []" using dr by simp
  from shrink_suffix [OF this _ X]
  have sh: "drawn_nodes (shrink_drawn s1) = layers 0 F m"
      "frontier (shrink_drawn s1) = tag (int m) (level F m)"
      "tree (shrink_drawn s1) = tree s1"
      "depth_limit (shrink_drawn s1) = L"
      "\<And>l. shown (shrink_drawn s1) l \<longleftrightarrow> shown s1 l"
    using fr L by simp_all
  have n: "m' - m = nat (depth_limit (shrink_drawn s1) + 1 - int m)"
    using True m' sh(4) by linarith
  from grow_layers [OF sh(2) n]
  have gr: "drawn_nodes s' = layers 0 F m @ layers (int m) (level F m) (m' - m)"
      "frontier s' = tag (int m + int (m' - m)) (level (level F m) (m' - m))"
      "tree s' = tree s1" "depth_limit s' = L"
      "\<And>l. shown s' l \<longleftrightarrow> shown s1 l \<or> l \<in> label ` snd ` set (layers (int m) (level F m) (m' - m))"
    using sh s' s2_eq by simp_all
  have "layers 0 F m' = layers 0 F m @ layers (int m) (level F m) (m' - m)"
    using layers_add [of 0 F m "m' - m"] True by simp
  moreover have "int m + int (m' - m) = int m'" "level (level F m) (m' - m) = level F m'"
    using True by (simp_all add: level_add)
  ultimately show ?thesis using gr True by simp
next
  case False
  then have lt: "m' < m" by simp
  define X where "X = layers 0 F m'"
  define Y where "Y = layers (int m') (level F m') (m - m')"
  have split: "drawn_nodes s1 = X @ Y"
    using layers_add [of 0 F m' "m - m'"] lt dr by (simp add: X_def Y_def)
  have Lm': "L + 1 \<le> int m'" using m' by simp
  have Ydepth: "\<forall>e \<in> set Y. L < fst e"
    using layers_depths [of _ "int m'" "level F m'" "m - m'"] Lm' by (fastforce simp: Y_def)
  have Xdepth: "X = [] \<or> fst (last X) \<le> L"
  proof (cases "X = []")
    case True then show ?thesis by simp
  next
    case False
    then have "last X \<in> set (layers 0 F m')" by (simp add: X_def)
    from layers_depths [OF this] have "fst (last X) < int m'" by simp
    moreover from False have "0 < m'" by (cases m') (auto simp: X_def)
    ultimately show ?thesis using m' by linarith
  qed
  show ?thesis
  proof (cases "Y = []")
    case True
    then have G: "level F m' = []" using layers_first_empty [of "int m'" "level F m'" "m - m'"] lt
      by (simp add: Y_def)
    then have Gm: "level F m = []"
      using level_add [of F m' "m - m'"] lt by simp
    have m'pos: "0 < m'" using G F by (cases m') auto
    have nd: "\<not> depth_was_decreased s1"
      using Xdepth split True by (auto simp: depth_was_decreased_iff L)
    then have s2_eq: "s2 = s1" using s2 by simp
    have "drawn_nodes s1 = X @ []" using split True by simp
    from shrink_suffix [OF this] Xdepth
    have sh: "drawn_nodes (shrink_drawn s1) = X"
        "frontier (shrink_drawn s1) = tag 0 []"
        "tree (shrink_drawn s1) = tree s1"
        "depth_limit (shrink_drawn s1) = L"
        "\<And>l. shown (shrink_drawn s1) l \<longleftrightarrow> shown s1 l"
      using fr L Gm by simp_all
    from grow_layers [OF sh(2) refl]
    have gr: "drawn_nodes s' = X" "frontier s' = []" "tree s' = tree s1" "depth_limit s' = L"
        "\<And>l. shown s' l \<longleftrightarrow> shown s1 l"
      using sh s' s2_eq by simp_all
    show ?thesis using gr lt G True m'pos m' by (simp add: X_def Y_def)
  next
    case False
    then have "last (drawn_nodes s1) \<in> set Y" using split by simp
    with Ydepth have "L < fst (last (drawn_nodes s1))" by blast
    moreover have "drawn_nodes s1 \<noteq> []" using split False by simp
    ultimately have dec: "depth_was_decreased s1"
      by (simp add: depth_was_decreased_iff L)
    then have s2_eq: "s2 = s1\<lparr>frontier := []\<rparr>" using s2 by simp
    have d2: "drawn_nodes s2 = X @ Y" using split s2_eq by simp
    have L2: "depth_limit s2 = L" using L s2_eq by simp
    from shrink_suffix [OF d2] Ydepth Xdepth L2
    have sh: "drawn_nodes (shrink_drawn s2) = X"
        "frontier (shrink_drawn s2) = filter (\<lambda>e. fst e = L + 1) Y"
        "tree (shrink_drawn s2) = tree s1"
        "depth_limit (shrink_drawn s2) = L"
        "\<And>l. shown (shrink_drawn s2) l \<longleftrightarrow> shown s1 l \<and> l \<notin> label ` snd ` set Y"
      using s2_eq by simp_all
    have fil: "filter (\<lambda>e. fst e = L + 1) Y
                 = (if L < - 1 then tag (int m') [] else tag (int m') (level F m'))"
    proof (cases "L < - 1")
      case True
      then have "L + 1 < int m'" by simp
      from filter_layers_below [OF this] True show ?thesis by (simp add: Y_def)
    next
      case False
      then have "L + 1 = int m'" using m' by simp
      with filter_layers_first [of "m - m'" "int m'" "level F m'"] lt False
      show ?thesis by (simp add: Y_def)
    qed
    define G where "G = (if L < - 1 then [] else level F m')"
    have fr2: "frontier (shrink_drawn s2) = tag (int m') G"
      using sh(2) fil by (simp add: G_def)
    have n0: "0 = nat (depth_limit (shrink_drawn s2) + 1 - int m')"
      using sh(4) Lm' by simp
    from grow_layers [OF fr2 n0]
    have gr: "drawn_nodes s' = X" "frontier s' = tag (int m') G" "tree s' = tree s1"
        "depth_limit s' = L"
        "\<And>l. shown s' l \<longleftrightarrow> shown s1 l \<and> l \<notin> label ` snd ` set Y"
      using sh s' by simp_all
    show ?thesis using gr lt by (simp add: X_def Y_def G_def)
  qed
qed

subsection \<open>The state after every call\<close>

lemma nodes_f_simps [simp]:
  "nodes_f [] = []" "nodes_f (a # F) = all_nodes a @ nodes_f F"
  "nodes_f (A @ B) = nodes_f A @ nodes_f B"
  by (simp_all add: nodes_f_def)

lemma all_nodes_unfold: "all_nodes a = a # nodes_f (children a)"
  by (cases a) (simp add: nodes_f_def)

lemma mset_nodes_f: "mset (nodes_f F) = mset F + mset (nodes_f (kids F))"
  by (induction F) (simp_all add: all_nodes_unfold)

lemma mset_layers:
  "image_mset snd (mset (layers d F n)) + mset (nodes_f (level F n)) = mset (nodes_f F)"
proof (induction n)
  case 0
  show ?case by simp
next
  case (Suc n)
  have "mset (nodes_f (level F n)) = mset (level F n) + mset (nodes_f (level F (Suc n)))"
    using mset_nodes_f [of "level F n"] by (simp only: level_Suc_end)
  moreover have "image_mset snd (mset (layers d F (Suc n)))
                   = image_mset snd (mset (layers d F n)) + mset (level F n)"
    by (simp add: layers_Suc tag_def image_mset.compositionality comp_def)
  ultimately show ?case using Suc by (simp add: add.assoc)
qed

lemma distinct_layers:
  assumes "distinct (map label (all_nodes t))"
  shows "distinct (map (\<lambda>e. label (snd e)) (layers d [t] n))"
proof -
  let ?A = "map snd (layers d [t] n) @ nodes_f (level [t] n)"
  have "mset ?A = mset (all_nodes t)"
    using mset_layers [of d "[t]" n] by simp
  then have "image_mset label (mset ?A) = image_mset label (mset (all_nodes t))"
    by (rule arg_cong)
  then have "mset (map label ?A) = mset (map label (all_nodes t))"
    by (simp only: mset_map)
  then have "distinct (map label ?A) \<longleftrightarrow> distinct (map label (all_nodes t))"
    by (rule mset_eq_imp_distinct_iff)
  with assms have "distinct (map label ?A)" by simp
  then show ?thesis by (simp add: comp_def)
qed

lemma set_level_cong: "set F = set G \<Longrightarrow> set (level F n) = set (level G n)"
  by (subst (1 2) level_concat) simp

lemma set_layers_cong:
  assumes "set F = set G" shows "set (layers d F n) = set (layers d G n)"
proof -
  have "set (level F i) = set (level G i)" for i
    using assms by (rule set_level_cong)
  then show ?thesis by (simp add: layers_def tag_def)
qed

lemma set_replicate_pos: "0 < k \<Longrightarrow> set (replicate k t) = set [t]"
  by simp

lemma layers_entries: "layers 0 [t] (nat (L + 1)) = entries_upto t L"
  by (simp add: layers_def entries_upto_def tag_def level_singleton)

lemma drawn_inv_tree_set: "drawn_inv t 0 0 (tree_set t s)"
  by (simp add: drawn_inv_def tree_set_def clear_def shown_def)

lemma shown_inv_tree_set: "shown_inv t 0 (tree_set t s)"
  by (simp add: shown_inv_def tree_set_def clear_def shown_def)

lemma set_depth_limit_step:
  assumes inv: "drawn_inv t m k s"
  shows "\<exists>k'. drawn_inv t (nat (L + 1)) k' (set_depth_limit L s)
           \<and> (L = - 1 \<or> drawn_nodes s = [] \<longrightarrow> 0 < k')
           \<and> (distinct (map label (all_nodes t)) \<longrightarrow> shown_inv t m s
                \<longrightarrow> shown_inv t (nat (L + 1)) (set_depth_limit L s))"
proof -
  define m' where "m' = nat (L + 1)"
  define k1 where "k1 = (if m = 0 then Suc k else k)"
  define F where "F = replicate k1 t"
  define s0 where "s0 = s\<lparr>depth_limit := L\<rparr>"
  define s1 where "s1 = (if drawn_nodes s0 = [] then s0\<lparr>frontier := (0, t) # frontier s0\<rparr> else s0)"
  define s2 where "s2 = (if depth_was_decreased s1 then s1\<lparr>frontier := []\<rparr> else s1)"
  define s' where "s' = grow_frontier (shrink_drawn s2)"
  from inv have tr: "tree s = Some t" and kpos: "0 < m \<longrightarrow> 0 < k"
    and dr: "drawn_nodes s = layers 0 (replicate k t) m"
    and fr: "frontier s = tag (int m) (level (replicate k t) m)"
    and vis: "\<forall>l. shown s l \<longrightarrow> l \<in> label ` snd ` set (layers 0 (replicate k t) m)"
    unfolding drawn_inv_def by auto
  have k1pos: "0 < k1" using kpos by (simp add: k1_def)
  then have Fne: "F \<noteq> []" by (simp add: F_def)
  have setF: "set F = set [t]" using k1pos by (simp add: F_def)
  have empty_iff: "drawn_nodes s = [] \<longleftrightarrow> m = 0"
  proof
    assume "drawn_nodes s = []"
    show "m = 0"
    proof (rule ccontr)
      assume "m \<noteq> 0"
      then obtain n where n: "m = Suc n" by (cases m) auto
      with kpos obtain j where "k = Suc j" by (cases k) auto
      with n dr \<open>drawn_nodes s = []\<close> show False by (simp add: layers_Suc_front)
    qed
  next
    assume "m = 0" then show "drawn_nodes s = []" using dr by simp
  qed
  have call: "set_depth_limit L s = s'"
    by (simp add: set_depth_limit_def draw_tree_def tr Let_def s'_def s2_def s1_def s0_def)
  have dr1: "drawn_nodes s1 = layers 0 F m"
    using dr by (auto simp: s1_def s0_def F_def k1_def)
  have fr1: "frontier s1 = tag (int m) (level F m)"
    using fr empty_iff by (auto simp: s1_def s0_def F_def k1_def)
  have L1: "depth_limit s1 = L" by (simp add: s1_def s0_def)
  have tr1: "tree s1 = Some t" using tr by (simp add: s1_def s0_def)
  have sh1: "shown s1 l = shown s l" for l by (simp add: s1_def s0_def)
  from draw_core [OF dr1 fr1 Fne L1 m'_def s2_def s'_def]
  have res: "drawn_nodes s' = layers 0 F m'"
      "frontier s' = (if L < - 1 \<and> m' < m then [] else tag (int m') (level F m'))"
      "tree s' = Some t"
      "\<And>l. shown s' l \<longleftrightarrow>
          (if m \<le> m' then shown s l \<or> l \<in> label ` snd ` set (layers (int m) (level F m) (m' - m))
           else shown s l \<and> l \<notin> label ` snd ` set (layers (int m') (level F m') (m - m')))"
    by (simp_all add: tr1 sh1)
  define k' where "k' = (if L < - 1 \<and> m' < m then 0 else k1)"
  have m'0: "L < - 1 \<Longrightarrow> m' = 0" by (simp add: m'_def)
  have vis_s: "shown s l \<Longrightarrow> l \<in> label ` snd ` set (layers 0 F m)" for l
  proof -
    assume "shown s l"
    with vis have "l \<in> label ` snd ` set (layers 0 (replicate k t) m)" by blast
    then show ?thesis by (cases "m = 0") (simp_all add: F_def k1_def)
  qed
  have vis': "shown s' l \<Longrightarrow> l \<in> label ` snd ` set (drawn_nodes s')" for l
  proof (cases "m \<le> m'")
    case True
    assume "shown s' l"
    with res(4) True have "shown s l \<or> l \<in> label ` snd ` set (layers (int m) (level F m) (m' - m))"
      by simp
    moreover have "layers 0 F m' = layers 0 F m @ layers (int m) (level F m) (m' - m)"
      using layers_add [of 0 F m "m' - m"] True by simp
    ultimately show ?thesis using vis_s [of l] res(1) by auto
  next
    case False
    assume "shown s' l"
    with res(4) False
    have a: "shown s l" "l \<notin> label ` snd ` set (layers (int m') (level F m') (m - m'))" by simp_all
    have "layers 0 F m = layers 0 F m' @ layers (int m') (level F m') (m - m')"
      using layers_add [of 0 F m' "m - m'"] False by simp
    with vis_s [OF a(1)] a(2) show ?thesis using res(1) by auto
  qed
  have inv': "drawn_inv t m' k' s'"
    unfolding drawn_inv_def
  proof (intro conjI allI impI)
    show "tree s' = Some t" by (rule res(3))
    show "0 < k'" if "0 < m'" using that m'0 k1pos by (auto simp: k'_def)
    show "drawn_nodes s' = layers 0 (replicate k' t) m'"
      using res(1) m'0 by (auto simp: k'_def F_def)
    show "frontier s' = tag (int m') (level (replicate k' t) m')"
      using res(2) m'0 by (auto simp: k'_def F_def)
    show "l \<in> label ` snd ` set (drawn_nodes s')" if "shown s' l" for l
      using that by (rule vis')
  qed
  have kk: "L = - 1 \<or> drawn_nodes s = [] \<longrightarrow> 0 < k'"
    using k1pos empty_iff by (auto simp: k'_def)
  have shown': "shown_inv t m' s'"
    if dist: "distinct (map label (all_nodes t))" and si: "shown_inv t m s"
    unfolding shown_inv_def
  proof (intro allI)
    fix l
    from si have s_iff: "shown s l \<longleftrightarrow> l \<in> label ` snd ` set (layers 0 [t] m)"
      by (simp add: shown_inv_def)
    show "shown s' l \<longleftrightarrow> l \<in> label ` snd ` set (layers 0 [t] m')"
    proof (cases "m \<le> m'")
      case True
      have "set (layers (int m) (level F m) (m' - m)) = set (layers (int m) (level [t] m) (m' - m))"
        by (intro set_layers_cong set_level_cong setF)
      moreover have "layers 0 [t] m' = layers 0 [t] m @ layers (int m) (level [t] m) (m' - m)"
        using layers_add [of 0 "[t]" m "m' - m"] True by simp
      ultimately show ?thesis using res(4) [of l] True s_iff by (auto simp: image_Un)
    next
      case False
      have Y: "set (layers (int m') (level F m') (m - m'))
                 = set (layers (int m') (level [t] m') (m - m'))"
        by (intro set_layers_cong set_level_cong setF)
      have split: "layers 0 [t] m = layers 0 [t] m' @ layers (int m') (level [t] m') (m - m')"
        using layers_add [of 0 "[t]" m' "m - m'"] False by simp
      from distinct_layers [OF dist, of 0 m]
      have "(\<lambda>e. label (snd e)) ` set (layers 0 [t] m')
              \<inter> (\<lambda>e. label (snd e)) ` set (layers (int m') (level [t] m') (m - m')) = {}"
        unfolding split by simp
      then have disj: "label ` snd ` set (layers 0 [t] m')
              \<inter> label ` snd ` set (layers (int m') (level [t] m') (m - m')) = {}"
        by (simp add: image_image)
      show ?thesis using res(4) [of l] False s_iff Y disj unfolding split by (auto simp: image_Un)
    qed
  qed
  show ?thesis
    unfolding call using inv' kk shown' by (auto simp: m'_def)
qed

lemma set_depth_limits_snoc:
  "set_depth_limits (ls @ [L]) s = set_depth_limit L (set_depth_limits ls s)"
  by (simp add: set_depth_limits_def)

lemma reach_inv:
  "\<exists>m k. drawn_inv t m k (set_depth_limits ls (tree_set t s))
       \<and> (distinct (map label (all_nodes t))
            \<longrightarrow> shown_inv t m (set_depth_limits ls (tree_set t s)))"
proof (induction ls rule: rev_induct)
  case Nil
  show ?case
    using drawn_inv_tree_set [of t s] shown_inv_tree_set [of t s]
    by (auto simp: set_depth_limits_def)
next
  case (snoc L ls)
  then obtain m k where
    "drawn_inv t m k (set_depth_limits ls (tree_set t s))"
    "distinct (map label (all_nodes t)) \<longrightarrow> shown_inv t m (set_depth_limits ls (tree_set t s))"
    by blast
  with set_depth_limit_step [of t m k "set_depth_limits ls (tree_set t s)" L]
  show ?case unfolding set_depth_limits_snoc by blast
qed

lemma drawn_inv_set:
  assumes "drawn_inv t (nat (L + 1)) k s"
  shows "set (drawn_nodes s) = set (entries_upto t L)"
proof (cases "0 < nat (L + 1)")
  case True
  with assms have "0 < k" by (simp add: drawn_inv_def)
  then have "set (replicate k t) = set [t]" by simp
  from set_layers_cong [OF this] assms show ?thesis
    by (simp add: drawn_inv_def layers_entries [symmetric])
next
  case False
  with assms show ?thesis by (simp add: drawn_inv_def entries_upto_def)
qed

lemma last_call:
  "set (drawn_nodes (set_depth_limits (ls @ [L]) (tree_set t s))) = set (entries_upto t L)
   \<and> (distinct (map label (all_nodes t)) \<longrightarrow>
        {l. shown (set_depth_limits (ls @ [L]) (tree_set t s)) l} = label ` set (nodes_upto t L))"
proof -
  let ?s = "set_depth_limits ls (tree_set t s)"
  from reach_inv [of t ls s] obtain m k where
    inv: "drawn_inv t m k ?s"
    and sh: "distinct (map label (all_nodes t)) \<longrightarrow> shown_inv t m ?s"
    by blast
  from set_depth_limit_step [OF inv, of L] sh obtain k' where
    inv': "drawn_inv t (nat (L + 1)) k' (set_depth_limit L ?s)"
    and sh': "distinct (map label (all_nodes t)) \<longrightarrow> shown_inv t (nat (L + 1)) (set_depth_limit L ?s)"
    by blast
  from sh' have "distinct (map label (all_nodes t)) \<longrightarrow>
        {l. shown (set_depth_limit L ?s) l} = label ` set (nodes_upto t L)"
    by (auto simp: shown_inv_def layers_entries nodes_upto_def)
  with drawn_inv_set [OF inv'] show ?thesis
    unfolding set_depth_limits_snoc by simp
qed

lemma depth_limit_set_depth_limit [simp]: "depth_limit (set_depth_limit L s) = L"
proof (cases "tree s")
  case None
  then show ?thesis by (simp add: set_depth_limit_def draw_tree_def)
next
  case (Some t)
  define s1 where "s1 = (if drawn_nodes s = [] then s\<lparr>depth_limit := L, frontier := (0, t) # frontier s\<rparr>
                         else s\<lparr>depth_limit := L\<rparr>)"
  define s2 where "s2 = (if depth_was_decreased s1 then s1\<lparr>frontier := []\<rparr> else s1)"
  have call: "set_depth_limit L s = grow_frontier (shrink_drawn s2)"
    using Some by (simp add: set_depth_limit_def draw_tree_def Let_def s1_def s2_def)
  have L2: "depth_limit s2 = L" by (simp add: s2_def s1_def)
  have "drawn_nodes s2 = [] @ drawn_nodes s2" by simp
  have a: "depth_limit (shrink_drawn s) = depth_limit s" for s :: viewer
  proof (induction s rule: shrink_drawn.induct)
    case (1 s)
    show ?case
      by (subst shrink_drawn.simps) (simp add: Let_def "1")
  qed
  have b: "depth_limit (grow_frontier s) = depth_limit s" for s :: viewer
  proof (induction s rule: grow_frontier.induct)
    case (1 s)
    show ?case
      by (subst grow_frontier.simps) (auto split: list.splits simp: "1")
  qed
  show ?thesis by (simp add: call a b L2)
qed

lemma set_tree_eq: "set_tree t md s = set_depth_limits [md, md] (tree_set t s)"
proof -
  have "draw_tree s' = set_depth_limit (depth_limit s') s'" for s'
    by (simp add: set_depth_limit_def)
  from this [of "set_depth_limit md (tree_set t s)"] show ?thesis
    by (simp add: set_tree_def set_depth_limits_def)
qed

subsection \<open>The events of a run\<close>












subsection \<open>The claims about the viewer\<close>


text \<open>
  C1: let a tree be set on the viewer, either in the state in which \<^verbatim>\<open>set_tree\<close>
  makes its first draw or after \<^verbatim>\<open>set_tree\<close> has drawn it with whatever maximal depth
  the adapter reported. After any sequence of \<^verbatim>\<open>set_depth_limit\<close> calls that ends
  with the limit \<open>L\<close>, the entries of \<^verbatim>\<open>_drawn_nodes\<close> are exactly the nodes of
  depth at most \<open>L\<close>, each with its depth (the root has depth 0), and, if the labels of
  the tree are pairwise distinct, the labels whose graphics item is shown are exactly the
  labels of these nodes. The limits before \<open>L\<close> play no part.
\<close>

theorem depth_limit_materializes_upto:
  "set (drawn_nodes (set_depth_limits (limits @ [L]) (tree_set t s))) = set (entries_upto t L)
   \<and> set (drawn_nodes (set_depth_limits (limits @ [L]) (set_tree t max_depth s)))
       = set (entries_upto t L)
   \<and> (distinct (map label (all_nodes t)) \<longrightarrow>
        {l. shown (set_depth_limits (limits @ [L]) (tree_set t s)) l}
          = label ` set (nodes_upto t L)
        \<and> {l. shown (set_depth_limits (limits @ [L]) (set_tree t max_depth s)) l}
          = label ` set (nodes_upto t L))"
proof -
  have "set_depth_limits (limits @ [L]) (set_tree t max_depth s)
          = set_depth_limits ((max_depth # max_depth # limits) @ [L]) (tree_set t s)"
    by (simp add: set_tree_eq set_depth_limits_def)
  then show ?thesis
    using last_call [of limits L t s] last_call [of "max_depth # max_depth # limits" L t s]
    by simp
qed

text \<open>
  The balanced tree after the limits 0, 2, 1: the items of the root and of its two
  children are shown.
\<close>

theorem depth_limit_materializes_upto_witness:
  "distinct (map label (all_nodes balanced3))
   \<and> set (drawn_nodes (set_depth_limits ([0, 2] @ [1]) (tree_set balanced3 (init_viewer 0))))
       = set (entries_upto balanced3 1)
   \<and> {l. shown (set_depth_limits ([0, 2] @ [1]) (tree_set balanced3 (init_viewer 0))) l}
       = {0, 1, 2}"
  using depth_limit_materializes_upto [of "[0, 2]" 1 balanced3 "init_viewer 0" 2]
  by (simp add: balanced3_def nodes_upto_def entries_upto_def eval_nat_numeral)







end
